theory Spec2Isabelle
  imports Main
begin

section \<open>The syntax trees that cashflower/graph.py analyses\<close>

text \<open>
  \<^verbatim>\<open>graph.py\<close> works on the tree that \<^verbatim>\<open>ast.parse(inspect.getsource(variable.func))\<close>
  returns. Four node classes are inspected by the code (\<^verbatim>\<open>ast.Name\<close>,
  \<^verbatim>\<open>ast.Constant\<close>, \<^verbatim>\<open>ast.BinOp\<close>, \<^verbatim>\<open>ast.Call\<close>); they are constructors
  of their own. Every other node class (Module, FunctionDef, Return, If, Compare,
  UnaryOp, Attribute, keyword, ...) is only ever walked by
  \<^verbatim>\<open>ast.NodeVisitor.generic_visit\<close>, which visits the child nodes in field order;
  such a node is \<open>Node cls children\<close>, the class name with its child nodes in that order.
  Operator and context nodes (\<^verbatim>\<open>ast.Add\<close>, \<^verbatim>\<open>ast.Load\<close>, ...) have no fields and no
  visitor method; a visit of one does nothing, and they are not listed among the children.
\<close>

text \<open>The value of an \<^verbatim>\<open>ast.Constant\<close>, tagged with its Python type.\<close>

datatype py_constant =
    CInt int
  | CBool bool
  | CFloat string
  | CComplex string
  | CStr string
  | CBytes string
  | CNone
  | CEllipsis

text \<open>\<^verbatim>\<open>isinstance(value, int)\<close>: in Python \<^verbatim>\<open>bool\<close> is a subclass of \<^verbatim>\<open>int\<close>.\<close>

fun isinstance_int :: "py_constant \<Rightarrow> bool" where
  "isinstance_int (CInt i) = True"
| "isinstance_int (CBool b) = True"
| "isinstance_int c = False"

text \<open>The operator of an \<^verbatim>\<open>ast.BinOp\<close>.\<close>

datatype operator =
    Add | Sub | Mult | MatMult | Div | Mod | Pow_op
  | LShift | RShift | BitOr | BitXor | BitAnd | FloorDiv

datatype ast =
    Name string
  | Constant py_constant
  | BinOp ast operator ast
  | Call ast "ast list" "ast list"
  | Node string "ast list"

text \<open>
  \<open>Call func args keywords\<close> is \<^verbatim>\<open>ast.Call\<close> with its three fields.
  Errors are values: the exception classes that the code under analysis can raise.
\<close>

datatype error =
    CashflowModelError string
  | IndexError
  | AttributeError
  | NetworkXError

section \<open>Argument Shape Validator: \<^verbatim>\<open>raise_error_if_incorrect_argument\<close>\<close>

text \<open>The two messages, with the callee's identifier between single quotes.\<close>

definition arity_msg :: "string \<Rightarrow> string" where
  "arity_msg fid =
     ''Model variable must have one argument. Please review the call of ''
     @ [CHR 0x27] @ fid @ [CHR 0x27] @ ''.''"

definition shape_msg :: "string \<Rightarrow> string" where
  "shape_msg fid =
     [CHR 0x0A] @ ''Please review '' @ [CHR 0x27] @ fid @ [CHR 0x27]
     @ ''. The argument of a model variable can be only:'' @ [CHR 0x0A]
     @ ''- t,'' @ [CHR 0x0A]
     @ ''- t plus/minus integer (e.g. t+1 or t-12),'' @ [CHR 0x0A]
     @ ''- an integer (e.g. 0 or 12).''"

text \<open>\<^verbatim>\<open>node.func.id\<close>: only \<^verbatim>\<open>ast.Name\<close> has the attribute \<^verbatim>\<open>id\<close>.\<close>

fun func_id :: "ast \<Rightarrow> error + string" where
  "func_id (Name fid) = Inr fid"
| "func_id f = Inl AttributeError"

text \<open>\<^verbatim>\<open>isinstance(e, ast.Name) and e.id == "t"\<close>\<close>

fun is_name_t :: "ast \<Rightarrow> bool" where
  "is_name_t (Name i) = (i = ''t'')"
| "is_name_t e = False"

text \<open>\<^verbatim>\<open>isinstance(e, ast.Constant) and isinstance(e.value, int)\<close>\<close>

fun is_int_constant :: "ast \<Rightarrow> bool" where
  "is_int_constant (Constant v) = isinstance_int v"
| "is_int_constant e = False"

text \<open>
  Lines 60-86, once the argument count is known to be one and the message is built.
  The four \<^verbatim>\<open>if isinstance\<close> blocks test disjoint classes, so they are the
  branches of one case distinction, in the source's order.
\<close>

fun check_argument :: "string \<Rightarrow> ast \<Rightarrow> error + unit" where
  "check_argument msg (Name i) =
     (if \<not> i = ''t'' then Inl (CashflowModelError msg) else Inr ())"
| "check_argument msg (Constant v) =
     (if \<not> isinstance_int v then Inl (CashflowModelError msg) else Inr ())"
| "check_argument msg (BinOp left op right) =
     (let check1 = is_name_t left;
          check2 = (op = Add \<or> op = Sub);
          check3 = is_int_constant right
      in if \<not> (check1 \<and> check2 \<and> check3) then Inl (CashflowModelError msg) else Inr ())"
| "check_argument msg arg = Inl (CashflowModelError msg)"

fun raise_error_if_incorrect_argument :: "ast \<Rightarrow> error + unit" where
  "raise_error_if_incorrect_argument (Call callee args keywords) =
     (if length args \<noteq> 1 then
        (case func_id callee of
           Inl e \<Rightarrow> Inl e
         | Inr fid \<Rightarrow> Inl (CashflowModelError (arity_msg fid)))
      else
        (case func_id callee of
           Inl e \<Rightarrow> Inl e
         | Inr fid \<Rightarrow> check_argument (shape_msg fid) (hd args)))"
| "raise_error_if_incorrect_argument node = Inl AttributeError"

section \<open>Call Reference Extractor: \<^verbatim>\<open>CallVisitor\<close> and \<^verbatim>\<open>get_calls\<close>\<close>

text \<open>
  The visitor's state is the list \<^verbatim>\<open>self.calls\<close>; \<^verbatim>\<open>self.variable_names\<close> never
  changes. \<^verbatim>\<open>visit_Call\<close> does not call \<^verbatim>\<open>generic_visit\<close>, so the children of a
  call node are not visited.
\<close>

fun CallVisitor_visit_Call :: "string list \<Rightarrow> ast \<Rightarrow> string list \<Rightarrow> error + string list" where
  "CallVisitor_visit_Call variable_names (Call (Name fid) args keywords) calls =
     (if fid \<in> set variable_names then
        (case raise_error_if_incorrect_argument (Call (Name fid) args keywords) of
           Inl e \<Rightarrow> Inl e
         | Inr u \<Rightarrow> Inr (calls @ [fid]))
      else Inr calls)"
| "CallVisitor_visit_Call variable_names node calls = Inr calls"

text \<open>
  \<^verbatim>\<open>NodeVisitor.visit\<close>: a call node goes to \<^verbatim>\<open>visit_Call\<close>, every other node to
  \<^verbatim>\<open>generic_visit\<close>, which visits the child nodes in field order (a name and a
  constant have no child that is an expression; a binary operation has left and
  right). An exception stops the walk.
\<close>

fun CallVisitor_visit :: "string list \<Rightarrow> ast \<Rightarrow> string list \<Rightarrow> error + string list"
  and CallVisitor_visit_each :: "string list \<Rightarrow> ast list \<Rightarrow> string list \<Rightarrow> error + string list"
where
  "CallVisitor_visit vn (Call callee args keywords) calls =
     CallVisitor_visit_Call vn (Call callee args keywords) calls"
| "CallVisitor_visit vn (Name i) calls = Inr calls"
| "CallVisitor_visit vn (Constant v) calls = Inr calls"
| "CallVisitor_visit vn (BinOp left op right) calls =
     (case CallVisitor_visit vn left calls of
        Inl e \<Rightarrow> Inl e
      | Inr calls' \<Rightarrow> CallVisitor_visit vn right calls')"
| "CallVisitor_visit vn (Node cls children) calls = CallVisitor_visit_each vn children calls"
| "CallVisitor_visit_each vn [] calls = Inr calls"
| "CallVisitor_visit_each vn (child # children) calls =
     (case CallVisitor_visit vn child calls of
        Inl e \<Rightarrow> Inl e
      | Inr calls' \<Rightarrow> CallVisitor_visit_each vn children calls')"

text \<open>
  A model variable as \<^verbatim>\<open>graph.py\<close> uses it: its name, the tree of its function's
  source (\<^verbatim>\<open>ast.parse(inspect.getsource(variable.func))\<close>) and the direction that
  \<^verbatim>\<open>get_calc_direction\<close> writes. The members of a list are distinct objects.
\<close>

record variable =
  name :: string
  func :: ast
  calc_direction :: string

text \<open>
  Modelled from the spec: \<^verbatim>\<open>get_object_by_name\<close> of \<^verbatim>\<open>cashflower/utils.py\<close>, which is
  not among the sources; it is the "name-lookup collaborator" that "resolves a variable
  name string to its Variable object". \<open>None\<close> stands for a name that no object bears.
\<close>

definition get_object_by_name :: "variable list \<Rightarrow> string \<Rightarrow> variable option" where
  "get_object_by_name objects n = find (\<lambda>object. name object = n) objects"

text \<open>Lines 26-31 and the filter of line 32: the names recorded, the variable's own removed.\<close>

definition get_call_names :: "variable \<Rightarrow> variable list \<Rightarrow> error + string list" where
  "get_call_names v variables =
     (let variable_names = map name variables
      in case CallVisitor_visit variable_names (func v) [] of
           Inl e \<Rightarrow> Inl e
         | Inr call_names \<Rightarrow> Inr (filter (\<lambda>call_name. call_name \<noteq> name v) call_names))"

definition get_calls :: "variable \<Rightarrow> variable list \<Rightarrow> error + variable option list" where
  "get_calls v variables =
     (case get_call_names v variables of
        Inl e \<Rightarrow> Inl e
      | Inr call_names \<Rightarrow> Inr (map (get_object_by_name variables) call_names))"

section \<open>Calculation Direction Classifier: \<^verbatim>\<open>CalcDirectionVisitor\<close> and \<^verbatim>\<open>get_calc_direction\<close>\<close>

text \<open>
  The visitor's state is the string \<^verbatim>\<open>self.calc_direction\<close>. \<^verbatim>\<open>node.args[0]\<close> raises
  \<^verbatim>\<open>IndexError\<close> on an empty argument list. The two assignments are in the source's
  order: an addition gives \<^verbatim>\<open>"backward"\<close>, a subtraction \<^verbatim>\<open>"forward"\<close>.
\<close>

fun direction_of_arg :: "ast \<Rightarrow> string \<Rightarrow> string" where
  "direction_of_arg (BinOp left op right) calc_dir =
     (let check1 = is_name_t left;
          check2 = (op = Add);
          check3 = (op = Sub);
          calc_dir1 = (if check1 \<and> check2 then ''backward'' else calc_dir)
      in if check1 \<and> check3 then ''forward'' else calc_dir1)"
| "direction_of_arg arg calc_dir = calc_dir"

fun CalcDirectionVisitor_visit_Call :: "string list \<Rightarrow> ast \<Rightarrow> string \<Rightarrow> error + string" where
  "CalcDirectionVisitor_visit_Call variable_names (Call (Name fid) args keywords) calc_dir =
     (if fid \<in> set variable_names then
        (case args of
           [] \<Rightarrow> Inl IndexError
         | arg # rest \<Rightarrow> Inr (direction_of_arg arg calc_dir))
      else Inr calc_dir)"
| "CalcDirectionVisitor_visit_Call variable_names node calc_dir = Inr calc_dir"

fun CalcDirectionVisitor_visit :: "string list \<Rightarrow> ast \<Rightarrow> string \<Rightarrow> error + string"
  and CalcDirectionVisitor_visit_each :: "string list \<Rightarrow> ast list \<Rightarrow> string \<Rightarrow> error + string"
where
  "CalcDirectionVisitor_visit vn (Call callee args keywords) calc_dir =
     CalcDirectionVisitor_visit_Call vn (Call callee args keywords) calc_dir"
| "CalcDirectionVisitor_visit vn (Name i) calc_dir = Inr calc_dir"
| "CalcDirectionVisitor_visit vn (Constant v) calc_dir = Inr calc_dir"
| "CalcDirectionVisitor_visit vn (BinOp left op right) calc_dir =
     (case CalcDirectionVisitor_visit vn left calc_dir of
        Inl e \<Rightarrow> Inl e
      | Inr calc_dir' \<Rightarrow> CalcDirectionVisitor_visit vn right calc_dir')"
| "CalcDirectionVisitor_visit vn (Node cls children) calc_dir =
     CalcDirectionVisitor_visit_each vn children calc_dir"
| "CalcDirectionVisitor_visit_each vn [] calc_dir = Inr calc_dir"
| "CalcDirectionVisitor_visit_each vn (child # children) calc_dir =
     (case CalcDirectionVisitor_visit vn child calc_dir of
        Inl e \<Rightarrow> Inl e
      | Inr calc_dir' \<Rightarrow> CalcDirectionVisitor_visit_each vn children calc_dir')"

text \<open>
  The loop of \<^verbatim>\<open>get_calc_direction\<close>, with the one visitor's direction passed from
  a variable to the next. The variables are objects mutated in place: when a visit
  raises, the assignments already made stay, and the exception leaves the function.
  The result is the variables as they are at the end, and the exception if any.
\<close>

fun get_calc_direction_loop ::
  "string list \<Rightarrow> string \<Rightarrow> variable list \<Rightarrow> variable list \<times> error option" where
  "get_calc_direction_loop vn calc_dir [] = ([], None)"
| "get_calc_direction_loop vn calc_dir (v # variables) =
     (case CalcDirectionVisitor_visit vn (func v) calc_dir of
        Inl e \<Rightarrow> (v # variables, Some e)
      | Inr calc_dir' \<Rightarrow>
          (case get_calc_direction_loop vn calc_dir' variables of
             (variables', r) \<Rightarrow> (v\<lparr>calc_direction := calc_dir'\<rparr> # variables', r)))"

definition get_calc_direction :: "variable list \<Rightarrow> variable list \<times> error option" where
  "get_calc_direction variables =
     (let variable_names = map name variables
      in get_calc_direction_loop variable_names ''irrelevant'' variables)"

section \<open>Predecessor Closure: \<^verbatim>\<open>get_predecessors\<close>\<close>

text \<open>
  \<^verbatim>\<open>DG\<close> is a \<^verbatim>\<open>networkx.DiGraph\<close>, which the caller owns. The function only calls
  \<^verbatim>\<open>DG.predecessors(node)\<close>: the nodes with an edge into \<^verbatim>\<open>node\<close>, and
  \<^verbatim>\<open>NetworkXError\<close> when \<^verbatim>\<open>node\<close> is not in the graph. The graph is the finite
  table that gives each of its nodes the list of its predecessors.
\<close>

type_synonym 'n digraph = "('n \<times> 'n list) list"

definition predecessors :: "'n digraph \<Rightarrow> 'n \<Rightarrow> error + 'n list" where
  "predecessors DG n = (case map_of DG n of None \<Rightarrow> Inl NetworkXError | Some ps \<Rightarrow> Inr ps)"

text \<open>
  The body of the \<^verbatim>\<open>for\<close> loop on the pair of the queue and the visited list:
  \<^verbatim>\<open>queue.put(child)\<close> and \<^verbatim>\<open>visited.append(child)\<close> always go together, so
  \<^verbatim>\<open>visited\<close> is also the list of all the nodes ever put in the queue.
\<close>

fun visit_child :: "'n list \<times> 'n list \<Rightarrow> 'n \<Rightarrow> 'n list \<times> 'n list" where
  "visit_child (queue, visited) child =
     (if child \<notin> set visited then (queue @ [child], visited @ [child]) else (queue, visited))"

text \<open>
  The \<^verbatim>\<open>while not queue.empty()\<close> loop. Nothing in its definition says that it ends:
  \<open>None\<close> is a loop that runs forever, \<open>Some (Inl e)\<close> an exception, and
  \<open>Some (Inr visited)\<close> the list returned.
\<close>

partial_function (option) get_predecessors_loop ::
  "'n digraph \<Rightarrow> 'n list \<Rightarrow> 'n list \<Rightarrow> (error + 'n list) option" where
  "get_predecessors_loop DG queue visited =
     (case queue of
        [] \<Rightarrow> Some (Inr visited)
      | node # queue' \<Rightarrow>
          (case predecessors DG node of
             Inl e \<Rightarrow> Some (Inl e)
           | Inr children \<Rightarrow>
               (case foldl visit_child (queue', visited) children of
                  (queue'', visited') \<Rightarrow> get_predecessors_loop DG queue'' visited')))"

declare get_predecessors_loop.simps [code]

definition get_predecessors :: "'n \<Rightarrow> 'n digraph \<Rightarrow> (error + 'n list) option" where
  "get_predecessors node DG = get_predecessors_loop DG [node] [node]"

text \<open>
  The states of the loop: the queue and the visited list each time the condition of
  the \<^verbatim>\<open>while\<close> is tested during \<^verbatim>\<open>get_predecessors(start, DG)\<close>.
\<close>

inductive loop_state :: "'n digraph \<Rightarrow> 'n \<Rightarrow> 'n list \<Rightarrow> 'n list \<Rightarrow> bool"
  for DG :: "'n digraph" and start :: 'n
where
  init: "loop_state DG start [start] [start]"
| iter: "loop_state DG start (node # queue) visited \<Longrightarrow>
         predecessors DG node = Inr children \<Longrightarrow>
         foldl visit_child (queue, visited) children = (queue', visited') \<Longrightarrow>
         loop_state DG start queue' visited'"

text \<open>
  The nodes of a graph, the graphs that networkx can hold (every predecessor is a node),
  and the edges: \<open>(p, n)\<close> is an edge when \<open>p\<close> is a predecessor of \<open>n\<close>.
\<close>

definition nodes :: "'n digraph \<Rightarrow> 'n set" where
  "nodes DG = fst ` set DG"

definition wf_digraph :: "'n digraph \<Rightarrow> bool" where
  "wf_digraph DG = (\<forall>(n, ps) \<in> set DG. set ps \<subseteq> nodes DG)"

definition pred_edges :: "'n digraph \<Rightarrow> ('n \<times> 'n) set" where
  "pred_edges DG = {(p, n). \<exists>ps. map_of DG n = Some ps \<and> p \<in> set ps}"

text \<open>Every node that the table mentions, and the invariant of the loop.\<close>

definition all_nodes :: "'n digraph \<Rightarrow> 'n set" where
  "all_nodes DG = nodes DG \<union> (\<Union>(n, ps) \<in> set DG. set ps)"

definition bfs_inv :: "'n digraph \<Rightarrow> 'n \<Rightarrow> 'n list \<Rightarrow> 'n list \<Rightarrow> bool" where
  "bfs_inv DG start queue visited =
     (distinct visited \<and> set queue \<subseteq> set visited \<and> start \<in> set visited
      \<and> set visited \<subseteq> nodes DG
      \<and> (\<forall>x \<in> set visited. (x, start) \<in> (pred_edges DG)\<^sup>*)
      \<and> (\<forall>x \<in> set visited - set queue. \<forall>p. (p, x) \<in> pred_edges DG \<longrightarrow> p \<in> set visited))"

section \<open>Notions used to state the properties\<close>

text \<open>
  The argument shapes that the validator lets through, written out as patterns, and
  the shapes that the specification lists (the time cursor, a literal integer, the
  cursor plus or minus a literal integer).
\<close>

fun permitted_shape :: "ast \<Rightarrow> bool" where
  "permitted_shape (Name i) = (i = ''t'')"
| "permitted_shape (Constant (CInt k)) = True"
| "permitted_shape (Constant (CBool b)) = True"
| "permitted_shape (BinOp (Name i) Add (Constant (CInt k))) = (i = ''t'')"
| "permitted_shape (BinOp (Name i) Add (Constant (CBool b))) = (i = ''t'')"
| "permitted_shape (BinOp (Name i) Sub (Constant (CInt k))) = (i = ''t'')"
| "permitted_shape (BinOp (Name i) Sub (Constant (CBool b))) = (i = ''t'')"
| "permitted_shape arg = False"

fun permitted_shape_spec :: "ast \<Rightarrow> bool" where
  "permitted_shape_spec (Name i) = (i = ''t'')"
| "permitted_shape_spec (Constant (CInt k)) = True"
| "permitted_shape_spec (BinOp (Name i) Add (Constant (CInt k))) = (i = ''t'')"
| "permitted_shape_spec (BinOp (Name i) Sub (Constant (CInt k))) = (i = ''t'')"
| "permitted_shape_spec arg = False"

text \<open>
  The call nodes on which a \<^verbatim>\<open>NodeVisitor\<close> with a \<^verbatim>\<open>visit_Call\<close> that does not
  descend has that method called, in order: the walk stops at a call node.
\<close>

fun visited_calls :: "ast \<Rightarrow> ast list"
  and visited_calls_each :: "ast list \<Rightarrow> ast list"
where
  "visited_calls (Call callee args keywords) = [Call callee args keywords]"
| "visited_calls (Name i) = []"
| "visited_calls (Constant v) = []"
| "visited_calls (BinOp left op right) = visited_calls left @ visited_calls right"
| "visited_calls (Node cls children) = visited_calls_each children"
| "visited_calls_each [] = []"
| "visited_calls_each (child # children) = visited_calls child @ visited_calls_each children"

text \<open>
  Every call node of a tree, as the specification's complete walk would meet them:
  also those inside the callee, the arguments and the keywords of another call.
\<close>

fun all_calls :: "ast \<Rightarrow> ast list"
  and all_calls_each :: "ast list \<Rightarrow> ast list"
where
  "all_calls (Call callee args keywords) =
     Call callee args keywords # all_calls callee @ all_calls_each args @ all_calls_each keywords"
| "all_calls (Name i) = []"
| "all_calls (Constant v) = []"
| "all_calls (BinOp left op right) = all_calls left @ all_calls right"
| "all_calls (Node cls children) = all_calls_each children"
| "all_calls_each [] = []"
| "all_calls_each (child # children) = all_calls child @ all_calls_each children"

text \<open>A call whose callee is a bare name among the known names; its callee; its arguments.\<close>

fun is_known_call :: "string list \<Rightarrow> ast \<Rightarrow> bool" where
  "is_known_call vn (Call (Name fid) args keywords) = (fid \<in> set vn)"
| "is_known_call vn node = False"

fun callee_name :: "ast \<Rightarrow> string" where
  "callee_name (Call (Name fid) args keywords) = fid"
| "callee_name node = []"

fun call_args :: "ast \<Rightarrow> ast list" where
  "call_args (Call callee args keywords) = args"
| "call_args node = []"

definition known_calls :: "string list \<Rightarrow> ast \<Rightarrow> ast list" where
  "known_calls vn tree = filter (is_known_call vn) (visited_calls tree)"

text \<open>A call that the validator refuses.\<close>

definition rejected :: "ast \<Rightarrow> bool" where
  "rejected c = (raise_error_if_incorrect_argument c \<noteq> Inr ())"


text \<open>The two \<^verbatim>\<open>visit_Call\<close> methods run over a list of call nodes.\<close>

fun CallVisitor_visit_Calls :: "string list \<Rightarrow> ast list \<Rightarrow> string list \<Rightarrow> error + string list" where
  "CallVisitor_visit_Calls vn [] calls = Inr calls"
| "CallVisitor_visit_Calls vn (c # cs) calls =
     (case CallVisitor_visit_Call vn c calls of
        Inl e \<Rightarrow> Inl e
      | Inr calls' \<Rightarrow> CallVisitor_visit_Calls vn cs calls')"

fun CalcDirectionVisitor_visit_Calls :: "string list \<Rightarrow> ast list \<Rightarrow> string \<Rightarrow> error + string" where
  "CalcDirectionVisitor_visit_Calls vn [] calc_dir = Inr calc_dir"
| "CalcDirectionVisitor_visit_Calls vn (c # cs) calc_dir =
     (case CalcDirectionVisitor_visit_Call vn c calc_dir of
        Inl e \<Rightarrow> Inl e
      | Inr calc_dir' \<Rightarrow> CalcDirectionVisitor_visit_Calls vn cs calc_dir')"

section \<open>Example models\<close>

text \<open>
  The tree of a function assigned to a model variable, as in
  \<^verbatim>\<open>tutorials/life_insurance/endowment/model.py\<close>:
  \<^verbatim>\<open>@assign(v)  def _v(t): body\<close>. The fields of a function definition are walked in
  the order arguments, body, decorators.
\<close>

definition assigned_function :: "string \<Rightarrow> ast list \<Rightarrow> ast" where
  "assigned_function v body =
     Node ''Module''
       [Node ''FunctionDef''
          ([Node ''arguments'' [Node ''arg'' []]] @ body @ [Call (Name ''assign'') [Name v] []])]"

definition new_variable :: "string \<Rightarrow> ast list \<Rightarrow> variable" where
  "new_variable v body =
     \<lparr>name = v, func = assigned_function v body, calc_direction = ''irrelevant''\<rparr>"

text \<open>The three variables of the endowment tutorial.\<close>

definition survival_rate :: variable where
  "survival_rate = new_variable ''survival_rate''
     [Node ''If''
        [Node ''Compare'' [Name ''t'', Constant (CInt 0)],
         Node ''Return'' [BinOp (Constant (CInt 1)) Sub (Name ''DEATH_PROB'')],
         Node ''Return''
           [BinOp (Call (Name ''survival_rate'') [BinOp (Name ''t'') Sub (Constant (CInt 1))] [])
              Mult (BinOp (Constant (CInt 1)) Sub (Name ''DEATH_PROB''))]]]"

definition expected_benefit :: variable where
  "expected_benefit = new_variable ''expected_benefit''
     [Node ''Assign''
        [Name ''sum_assured'',
         Call (Node ''Attribute'' [Name ''main'']) [Constant (CStr ''sum_assured'')] []],
      Node ''Assign''
        [Name ''remaining_term'',
         Call (Node ''Attribute'' [Name ''main'']) [Constant (CStr ''remaining_term'')] []],
      Node ''If''
        [Node ''Compare'' [Name ''t'', Name ''remaining_term''],
         Node ''Return''
           [BinOp (BinOp (Call (Name ''survival_rate'')
                            [BinOp (Name ''t'') Sub (Constant (CInt 1))] [])
                     Mult (Name ''DEATH_PROB''))
              Mult (Name ''sum_assured'')],
         Node ''If''
           [Node ''Compare'' [Name ''t'', Name ''remaining_term''],
            Node ''Return''
              [BinOp (Call (Name ''survival_rate'') [Name ''t''] []) Mult (Name ''sum_assured'')],
            Node ''Return'' [Constant (CInt 0)]]]]"

definition net_single_premium :: variable where
  "net_single_premium = new_variable ''net_single_premium''
     [Node ''Return''
        [BinOp (Call (Name ''expected_benefit'') [Name ''t''] [])
           Add
           (BinOp (BinOp (Call (Name ''net_single_premium'')
                            [BinOp (Name ''t'') Add (Constant (CInt 1))] [])
                     Mult (Constant (CInt 1)))
              Div (BinOp (Constant (CInt 1)) Add (Name ''INTEREST_RATE'')))]]"

text \<open>\<^verbatim>\<open>def f(t): return f(t-1) * r\<close>\<close>

definition var_f :: variable where
  "var_f = new_variable ''f''
     [Node ''Return''
        [BinOp (Call (Name ''f'') [BinOp (Name ''t'') Sub (Constant (CInt 1))] [])
           Mult (Name ''r'')]]"

text \<open>\<^verbatim>\<open>def g(t): return max(f(t), 0)\<close>\<close>

definition var_g :: variable where
  "var_g = new_variable ''g''
     [Node ''Return'' [Call (Name ''max'') [Call (Name ''f'') [Name ''t''] [], Constant (CInt 0)] []]]"

text \<open>\<^verbatim>\<open>def h(t): return h()\<close>\<close>

definition var_h :: variable where
  "var_h = new_variable ''h'' [Node ''Return'' [Call (Name ''h'') [] []]]"

text \<open>\<^verbatim>\<open>def bad2(t): return g(t) + other(t*2)\<close> and \<^verbatim>\<open>def other(t): return 1\<close>\<close>

definition var_bad2 :: variable where
  "var_bad2 = new_variable ''bad2''
     [Node ''Return''
        [BinOp (Call (Name ''g'') [Name ''t''] []) Add
           (Call (Name ''other'') [BinOp (Name ''t'') Mult (Constant (CInt 2))] [])]]"

text \<open>\<^verbatim>\<open>def masked(t): return max(other(t*2), 0)\<close>\<close>

definition var_masked :: variable where
  "var_masked = new_variable ''masked''
     [Node ''Return''
        [Call (Name ''max'')
           [Call (Name ''other'') [BinOp (Name ''t'') Mult (Constant (CInt 2))] [],
            Constant (CInt 0)] []]]"

definition var_other :: variable where
  "var_other = new_variable ''other'' [Node ''Return'' [Constant (CInt 1)]]"

text \<open>
  A cycle of three: \<^verbatim>\<open>def a(t): return b(t)\<close>, \<^verbatim>\<open>def b(t): return c(t-1)\<close>,
  \<^verbatim>\<open>def c(t): return a(t) + 1\<close>.
\<close>

definition var_a :: variable where
  "var_a = new_variable ''a'' [Node ''Return'' [Call (Name ''b'') [Name ''t''] []]]"

definition var_b :: variable where
  "var_b = new_variable ''b''
     [Node ''Return'' [Call (Name ''c'') [BinOp (Name ''t'') Sub (Constant (CInt 1))] []]]"

definition var_c :: variable where
  "var_c = new_variable ''c''
     [Node ''Return'' [BinOp (Call (Name ''a'') [Name ''t''] []) Add (Constant (CInt 1))]]"

text \<open>A graph with a cycle between its three nodes, and a graph with a chain.\<close>

definition cyclic_graph :: "string digraph" where
  "cyclic_graph = [(''a'', [''b'', ''c'']), (''b'', [''c'', ''a'']), (''c'', [''a''])]"

definition chain_graph :: "string digraph" where
  "chain_graph = [(''x'', [''y'']), (''y'', [''z'', ''x'']), (''z'', []), (''w'', [''x''])]"

section \<open>The Argument Shape Validator\<close>

lemma check_argument_permitted:
  "check_argument msg arg = (if permitted_shape arg then Inr () else Inl (CashflowModelError msg))"
  by (induction arg rule: permitted_shape.induct) simp_all

lemma validator_closed:
  "raise_error_if_incorrect_argument (Call (Name f) args kws) =
     (if length args \<noteq> 1 then Inl (CashflowModelError (arity_msg f))
      else if permitted_shape (hd args) then Inr ()
      else Inl (CashflowModelError (shape_msg f)))"
  by (simp add: check_argument_permitted)

lemma validator_callee_not_a_name:
  "func_id callee = Inl AttributeError \<Longrightarrow>
   raise_error_if_incorrect_argument (Call callee args kws) = Inl AttributeError"
  by simp

lemma permitted_shape_spec_permitted: "permitted_shape_spec arg \<Longrightarrow> permitted_shape arg"
  by (induction arg rule: permitted_shape.induct) simp_all

text \<open>
  C4, as the specification has it, fails on a boolean literal: \<^verbatim>\<open>f(True)\<close> is none of
  the shapes that the specification lists, and the validator accepts it.
\<close>

theorem validator_accepts_unlisted_shape:
  "raise_error_if_incorrect_argument (Call (Name ''f'') [Constant (CBool True)] []) = Inr ()
   \<and> \<not> permitted_shape_spec (Constant (CBool True))"
  by simp

text \<open>
  C4, amended. For a call whose callee is the bare name \<open>f\<close> (the only calls that the
  extractor passes to the validator): with a number of positional arguments other than
  one the validator raises the arity message for \<open>f\<close>; with one it accepts exactly when the
  argument is \<^verbatim>\<open>t\<close>, a constant that is an instance of \<^verbatim>\<open>int\<close> (an integer or a
  boolean), or \<^verbatim>\<open>t\<close> plus or minus such a constant, and raises the shape message for
  \<open>f\<close> otherwise. Both messages hold the callee's name between quotes.
\<close>

theorem validator_contract:
  "raise_error_if_incorrect_argument (Call (Name f) args keywords) =
     (if length args \<noteq> 1 then Inl (CashflowModelError (arity_msg f))
      else if permitted_shape (hd args) then Inr ()
      else Inl (CashflowModelError (shape_msg f)))
   \<and> (\<exists>pre post. arity_msg f = pre @ [CHR 0x27] @ f @ [CHR 0x27] @ post)
   \<and> (\<exists>pre post. shape_msg f = pre @ [CHR 0x27] @ f @ [CHR 0x27] @ post)"
proof (intro conjI)
  show "raise_error_if_incorrect_argument (Call (Name f) args keywords) =
     (if length args \<noteq> 1 then Inl (CashflowModelError (arity_msg f))
      else if permitted_shape (hd args) then Inr ()
      else Inl (CashflowModelError (shape_msg f)))"
    by (rule validator_closed)
  show "\<exists>pre post. arity_msg f = pre @ [CHR 0x27] @ f @ [CHR 0x27] @ post"
    unfolding arity_msg_def by blast
  have "shape_msg f = ([CHR 0x0A] @ ''Please review '') @ [CHR 0x27] @ f @ [CHR 0x27]
     @ (''. The argument of a model variable can be only:'' @ [CHR 0x0A]
     @ ''- t,'' @ [CHR 0x0A]
     @ ''- t plus/minus integer (e.g. t+1 or t-12),'' @ [CHR 0x0A]
     @ ''- an integer (e.g. 0 or 12).'')"
    unfolding shape_msg_def by simp
  then show "\<exists>pre post. shape_msg f = pre @ [CHR 0x27] @ f @ [CHR 0x27] @ post"
    by blast
qed

theorem validator_contract_witness:
  "raise_error_if_incorrect_argument
     (Call (Name ''other'') [Name ''t'', Constant (CInt 1)] []) =
     Inl (CashflowModelError (arity_msg ''other''))
   \<and> raise_error_if_incorrect_argument
     (Call (Name ''other'') [BinOp (Name ''t'') Mult (Constant (CInt 2))] []) =
     Inl (CashflowModelError (shape_msg ''other''))
   \<and> raise_error_if_incorrect_argument
     (Call (Name ''h'') [BinOp (Name ''t'') Add (Constant (CInt 1))] []) = Inr ()"
  using validator_contract [of "''other''" "[Name ''t'', Constant (CInt 1)]" "[]"]
    validator_contract [of "''other''" "[BinOp (Name ''t'') Mult (Constant (CInt 2))]" "[]"]
    validator_contract [of "''h''" "[BinOp (Name ''t'') Add (Constant (CInt 1))]" "[]"]
  by simp

text \<open>
  C10. The validator accepts a boolean literal wherever it asks for an integer
  constant: as the whole argument, and as the offset added to or subtracted from
  \<^verbatim>\<open>t\<close>.
\<close>

theorem validator_accepts_boolean_literals:
  "raise_error_if_incorrect_argument (Call (Name f) [Constant (CBool b)] keywords) = Inr ()
   \<and> raise_error_if_incorrect_argument
       (Call (Name f) [BinOp (Name ''t'') Add (Constant (CBool b))] keywords) = Inr ()
   \<and> raise_error_if_incorrect_argument
       (Call (Name f) [BinOp (Name ''t'') Sub (Constant (CBool b))] keywords) = Inr ()"
  by simp

theorem validator_accepts_boolean_literals_witness:
  "raise_error_if_incorrect_argument (Call (Name ''f'') [Constant (CBool False)] []) = Inr ()"
  using validator_accepts_boolean_literals [of "''f''" False "[]"] by blast

section \<open>The walk of the two visitors\<close>

lemmas example_defs =
  new_variable_def assigned_function_def survival_rate_def expected_benefit_def
  net_single_premium_def var_f_def var_g_def var_h_def var_bad2_def var_other_def
  var_masked_def
  var_a_def var_b_def var_c_def

lemma CallVisitor_visit_Calls_append:
  "CallVisitor_visit_Calls vn (cs @ ds) calls =
     (case CallVisitor_visit_Calls vn cs calls of
        Inl e \<Rightarrow> Inl e
      | Inr calls' \<Rightarrow> CallVisitor_visit_Calls vn ds calls')"
  by (induction cs arbitrary: calls) (auto split: sum.splits)

lemma CallVisitor_visit_visited_calls:
  "CallVisitor_visit vn node calls = CallVisitor_visit_Calls vn (visited_calls node) calls"
  "CallVisitor_visit_each vn trees calls = CallVisitor_visit_Calls vn (visited_calls_each trees) calls"
  by (induction vn node calls and vn trees calls rule: CallVisitor_visit_CallVisitor_visit_each.induct)
     (auto simp: CallVisitor_visit_Calls_append split: sum.splits)

lemma CallVisitor_visit_Call_cases:
  "CallVisitor_visit_Call vn c calls =
     (if is_known_call vn c then
        (case raise_error_if_incorrect_argument c of
           Inl e \<Rightarrow> Inl e
         | Inr u \<Rightarrow> Inr (calls @ [callee_name c]))
      else Inr calls)"
  by (induction vn c rule: is_known_call.induct)
     (simp_all del: raise_error_if_incorrect_argument.simps split: sum.splits)

lemma CallVisitor_visit_Calls_closed:
  "CallVisitor_visit_Calls vn cs calls =
     (case find rejected (filter (is_known_call vn) cs) of
        Some c \<Rightarrow> Inl (projl (raise_error_if_incorrect_argument c))
      | None \<Rightarrow> Inr (calls @ map callee_name (filter (is_known_call vn) cs)))"
proof (induction cs arbitrary: calls)
  case Nil
  show ?case by simp
next
  case (Cons c cs)
  show ?case
  proof (cases "is_known_call vn c")
    case False
    then show ?thesis using Cons.IH
      by (simp add: CallVisitor_visit_Call_cases split: option.splits)
  next
    case True
    show ?thesis
    proof (cases "raise_error_if_incorrect_argument c")
      case (Inl e)
      then show ?thesis using True by (simp add: CallVisitor_visit_Call_cases rejected_def)
    next
      case (Inr u)
      then show ?thesis using True Cons.IH
        by (simp add: CallVisitor_visit_Call_cases rejected_def split: option.splits)
    qed
  qed
qed



lemma visited_calls_all_calls:
  "set (visited_calls node) \<subseteq> set (all_calls node)"
  "set (visited_calls_each trees) \<subseteq> set (all_calls_each trees)"
  by (induction node and trees rule: visited_calls_visited_calls_each.induct) auto

section \<open>The Call Reference Extractor\<close>

lemma is_known_call_callee_name: "is_known_call vn c \<Longrightarrow> callee_name c \<in> set vn"
  by (induction vn c rule: is_known_call.induct) simp_all

lemma get_call_names_closed:
  "get_call_names v variables =
     (case find rejected (known_calls (map name variables) (func v)) of
        Some c \<Rightarrow> Inl (projl (raise_error_if_incorrect_argument c))
      | None \<Rightarrow> Inr (filter (\<lambda>n. n \<noteq> name v)
                  (map callee_name (known_calls (map name variables) (func v)))))"
  by (simp add: get_call_names_def known_calls_def CallVisitor_visit_visited_calls
      CallVisitor_visit_Calls_closed split: option.splits)

lemma get_object_by_name_known:
  "n \<in> set (map name variables) \<Longrightarrow>
   \<exists>w \<in> set variables. get_object_by_name variables n = Some w \<and> name w = n"
  unfolding get_object_by_name_def
  by (induction variables) auto



lemma rejected_error:
  assumes "rejected c" "is_known_call vn c"
  shows "raise_error_if_incorrect_argument c = Inl (CashflowModelError (arity_msg (callee_name c)))
       \<or> raise_error_if_incorrect_argument c = Inl (CashflowModelError (shape_msg (callee_name c)))"
proof -
  from assms(2) obtain fid args kws where c: "c = Call (Name fid) args kws"
    by (induction vn c rule: is_known_call.induct) simp_all
  show ?thesis using assms(1) unfolding c rejected_def validator_closed
    by (simp split: if_splits)
qed

lemma get_calls_Inr:
  assumes "get_calls v variables = Inr objs"
  shows "objs = map (get_object_by_name variables)
           (filter (\<lambda>n. n \<noteq> name v) (map callee_name (known_calls (map name variables) (func v))))"
proof (cases "find rejected (known_calls (map name variables) (func v))")
  case None
  then have "get_call_names v variables = Inr (filter (\<lambda>n. n \<noteq> name v)
      (map callee_name (known_calls (map name variables) (func v))))"
    by (simp add: get_call_names_closed)
  with assms show ?thesis by (simp add: get_calls_def)
next
  case (Some c)
  then have "get_call_names v variables = Inl (projl (raise_error_if_incorrect_argument c))"
    by (simp add: get_call_names_closed)
  with assms show ?thesis by (simp add: get_calls_def)
qed


text \<open>
  C2 fails on \<^verbatim>\<open>def g(t): return max(f(t), 0)\<close> with the known variables \<open>g\<close> and
  \<open>f\<close>: the call \<^verbatim>\<open>f(t)\<close> is a call node of the tree, its callee is known, and the
  extractor, which does not walk into the arguments of \<^verbatim>\<open>max(...)\<close>, returns the
  empty list.
\<close>

theorem extractor_misses_call_in_argument:
  "Call (Name ''f'') [Name ''t''] [] \<in> set (all_calls (func var_g))
   \<and> is_known_call (map name [var_g, var_f]) (Call (Name ''f'') [Name ''t''] [])
   \<and> get_calls var_g [var_g, var_f] = Inr []"
  by (simp add: get_calls_def get_call_names_def example_defs)

text \<open>
  C3, as the specification has it, fails on the endowment tutorial: the formula of
  \<^verbatim>\<open>expected_benefit\<close> calls \<^verbatim>\<open>survival_rate\<close> twice, and the list holds it twice.
\<close>

theorem extractor_repeats_a_name:
  "get_calls expected_benefit [survival_rate, expected_benefit, net_single_premium]
     = Inr [Some survival_rate, Some survival_rate]
   \<and> \<not> distinct [Some survival_rate, Some survival_rate]"
  by (simp add: get_calls_def get_call_names_def get_object_by_name_def example_defs)

text \<open>
  C3, amended. The list that the extractor returns never holds the variable whose
  formula is analysed, and every entry is a variable of the list given; it holds one
  entry for each call to another known variable that the walk visits, in the order of
  the walk, so a variable called several times appears several times.
\<close>

theorem extractor_names:
  assumes "get_calls v variables = Inr objs"
  shows "(\<forall>ob \<in> set objs. \<exists>w \<in> set variables. ob = Some w \<and> name w \<noteq> name v)
       \<and> map (map_option name) objs =
           map Some (filter (\<lambda>n. n \<noteq> name v)
             (map callee_name (known_calls (map name variables) (func v))))"
proof -
  let ?ns = "filter (\<lambda>n. n \<noteq> name v) (map callee_name (known_calls (map name variables) (func v)))"
  have objs: "objs = map (get_object_by_name variables) ?ns"
    by (rule get_calls_Inr[OF assms])
  have known: "n \<in> set (map name variables) \<and> n \<noteq> name v" if "n \<in> set ?ns" for n
  proof -
    from that obtain c where "c \<in> set (known_calls (map name variables) (func v))"
      "n = callee_name c" "n \<noteq> name v" by auto
    then show ?thesis
      using is_known_call_callee_name[of "map name variables" c] by (simp add: known_calls_def)
  qed
  have A: "\<forall>ob \<in> set objs. \<exists>w \<in> set variables. ob = Some w \<and> name w \<noteq> name v"
  proof
    fix ob assume "ob \<in> set objs"
    then obtain n where n: "n \<in> set ?ns" "ob = get_object_by_name variables n"
      unfolding objs by auto
    from known[OF n(1)] have "n \<in> set (map name variables)" "n \<noteq> name v" by simp_all
    from get_object_by_name_known[OF this(1)] obtain w where
      "w \<in> set variables" "get_object_by_name variables n = Some w" "name w = n" by blast
    with n(2) \<open>n \<noteq> name v\<close> show "\<exists>w \<in> set variables. ob = Some w \<and> name w \<noteq> name v"
      by blast
  qed
  have "map_option name (get_object_by_name variables n) = Some n" if "n \<in> set ?ns" for n
  proof -
    from known[OF that] have "n \<in> set (map name variables)" by simp
    from get_object_by_name_known[OF this] show ?thesis by auto
  qed
  then have B: "map (map_option name) objs = map Some ?ns"
    unfolding objs by simp
  from A B show ?thesis by blast
qed

theorem extractor_names_witness:
  "get_calls net_single_premium [survival_rate, expected_benefit, net_single_premium]
     = Inr [Some expected_benefit]
   \<and> expected_benefit \<in> set [survival_rate, expected_benefit, net_single_premium]
   \<and> name expected_benefit \<noteq> name net_single_premium
   \<and> map Some (filter (\<lambda>n. n \<noteq> name net_single_premium)
         (map callee_name
           (known_calls (map name [survival_rate, expected_benefit, net_single_premium])
              (func net_single_premium))))
       = [Some ''expected_benefit'']"
proof -
  have h: "get_calls net_single_premium [survival_rate, expected_benefit, net_single_premium]
     = Inr [Some expected_benefit]"
    by (simp add: get_calls_def get_call_names_def get_object_by_name_def example_defs)
  have n: "name expected_benefit = ''expected_benefit''"
    by (simp add: example_defs)
  from extractor_names [OF h] h n show ?thesis by auto
qed

text \<open>
  C6 fails on \<^verbatim>\<open>def masked(t): return max(other(t*2), 0)\<close> with the known variables
  \<open>masked\<close> and \<open>other\<close>: the call \<^verbatim>\<open>other(t*2)\<close> is a call node of the tree, its
  callee is known and the validator refuses it, yet the extractor, whose walk stops at
  \<^verbatim>\<open>max(...)\<close>, raises nothing and returns the empty list.
\<close>

theorem extractor_accepts_masked_invalid_call:
  "Call (Name ''other'') [BinOp (Name ''t'') Mult (Constant (CInt 2))] []
     \<in> set (all_calls (func var_masked))
   \<and> is_known_call (map name [var_masked, var_other])
        (Call (Name ''other'') [BinOp (Name ''t'') Mult (Constant (CInt 2))] [])
   \<and> raise_error_if_incorrect_argument
        (Call (Name ''other'') [BinOp (Name ''t'') Mult (Constant (CInt 2))] [])
       = Inl (CashflowModelError (shape_msg ''other''))
   \<and> known_calls (map name [var_masked, var_other]) (func var_masked) = []
   \<and> get_calls var_masked [var_masked, var_other] = Inr []"
  by (simp add: get_calls_def get_call_names_def known_calls_def example_defs)

text \<open>
  On the calls that the walk does visit the extractor fails as a whole: when the
  validator refuses one of them, the result is the error that the validator raises on
  the first such call, a \<^verbatim>\<open>CashflowModelError\<close> whose message names that call's callee,
  and no list.
\<close>

lemma extractor_fails_on_visited_call:
  assumes "c \<in> set (known_calls (map name variables) (func v))" and "rejected c"
  shows "\<exists>c' e. find rejected (known_calls (map name variables) (func v)) = Some c'
           \<and> raise_error_if_incorrect_argument c' = Inl e
           \<and> get_calls v variables = Inl e
           \<and> (e = CashflowModelError (arity_msg (callee_name c'))
              \<or> e = CashflowModelError (shape_msg (callee_name c')))"
proof -
  let ?ks = "known_calls (map name variables) (func v)"
  from assms have "find rejected ?ks \<noteq> None"
    by (auto simp: find_None_iff)
  then obtain c' where c': "find rejected ?ks = Some c'" by auto
  then have rej: "rejected c'" and mem: "c' \<in> set ?ks"
    by (auto simp: find_Some_iff)
  from mem have kn: "is_known_call (map name variables) c'"
    by (simp add: known_calls_def)
  from rejected_error[OF rej kn] obtain e where
    e: "raise_error_if_incorrect_argument c' = Inl e"
       "e = CashflowModelError (arity_msg (callee_name c'))
        \<or> e = CashflowModelError (shape_msg (callee_name c'))" by blast
  have "get_call_names v variables = Inl e"
    using c' e(1) by (simp add: get_call_names_closed)
  then have "get_calls v variables = Inl e" by (simp add: get_calls_def)
  with c' e show ?thesis by blast
qed

lemma extractor_fails_on_visited_call_example:
  "Call (Name ''other'') [BinOp (Name ''t'') Mult (Constant (CInt 2))] []
     \<in> set (known_calls (map name [var_bad2, var_g, var_other]) (func var_bad2))
   \<and> rejected (Call (Name ''other'') [BinOp (Name ''t'') Mult (Constant (CInt 2))] [])
   \<and> get_calls var_bad2 [var_bad2, var_g, var_other]
       = Inl (CashflowModelError (shape_msg ''other''))"
proof -
  let ?c = "Call (Name ''other'') [BinOp (Name ''t'') Mult (Constant (CInt 2))] []"
  have m: "?c \<in> set (known_calls (map name [var_bad2, var_g, var_other]) (func var_bad2))"
    by (simp add: known_calls_def example_defs)
  have r: "rejected ?c" by (simp add: rejected_def)
  have f: "find rejected (known_calls (map name [var_bad2, var_g, var_other]) (func var_bad2))
             = Some ?c"
    by (simp add: known_calls_def rejected_def example_defs)
  have v: "raise_error_if_incorrect_argument ?c = Inl (CashflowModelError (shape_msg ''other''))"
    by simp
  from extractor_fails_on_visited_call [OF m r] f v
  have "get_calls var_bad2 [var_bad2, var_g, var_other]
          = Inl (CashflowModelError (shape_msg ''other''))" by auto
  with m r show ?thesis by blast
qed

section \<open>The Calculation Direction Classifier\<close>

lemma CalcDirectionVisitor_visit_Calls_append:
  "CalcDirectionVisitor_visit_Calls vn (cs @ ds) d =
     (case CalcDirectionVisitor_visit_Calls vn cs d of
        Inl e \<Rightarrow> Inl e
      | Inr d' \<Rightarrow> CalcDirectionVisitor_visit_Calls vn ds d')"
  by (induction cs arbitrary: d) (auto split: sum.splits)

lemma CalcDirectionVisitor_visit_visited_calls:
  "CalcDirectionVisitor_visit vn node d = CalcDirectionVisitor_visit_Calls vn (visited_calls node) d"
  "CalcDirectionVisitor_visit_each vn trees d =
     CalcDirectionVisitor_visit_Calls vn (visited_calls_each trees) d"
  by (induction vn node d and vn trees d
      rule: CalcDirectionVisitor_visit_CalcDirectionVisitor_visit_each.induct)
     (auto simp: CalcDirectionVisitor_visit_Calls_append split: sum.splits)

lemma CalcDirectionVisitor_visit_Call_cases:
  "CalcDirectionVisitor_visit_Call vn c d =
     (if is_known_call vn c then
        (case call_args c of
           [] \<Rightarrow> Inl IndexError
         | arg # rest \<Rightarrow> Inr (direction_of_arg arg d))
      else Inr d)"
  by (induction vn c rule: is_known_call.induct) (simp_all split: list.splits)

lemma CalcDirectionVisitor_visit_Calls_error:
  "(\<exists>d'. CalcDirectionVisitor_visit_Calls vn cs d = Inr d')
     \<or> CalcDirectionVisitor_visit_Calls vn cs d = Inl IndexError"
  by (induction cs arbitrary: d)
     (auto simp: CalcDirectionVisitor_visit_Call_cases split: sum.splits list.splits)

lemma CalcDirectionVisitor_visit_Calls_raises:
  "(CalcDirectionVisitor_visit_Calls vn cs d = Inl IndexError) =
   (\<exists>c \<in> set cs. is_known_call vn c \<and> call_args c = [])"
  by (induction cs arbitrary: d)
     (auto simp: CalcDirectionVisitor_visit_Call_cases split: sum.splits list.splits)

lemma CalcDirectionVisitor_visit_raises:
  "CalcDirectionVisitor_visit vn tree d =  Inl e \<longleftrightarrow>
   e = IndexError \<and> (\<exists>c \<in> set (known_calls vn tree). call_args c = [])"
  using CalcDirectionVisitor_visit_Calls_error[of vn "visited_calls tree" d]
    CalcDirectionVisitor_visit_Calls_raises[of vn "visited_calls tree" d]
  by (auto simp: CalcDirectionVisitor_visit_visited_calls known_calls_def)

lemma get_calc_direction_loop_error:
  "snd (get_calc_direction_loop vn d vs) =
     (if \<exists>v \<in> set vs. \<exists>c \<in> set (known_calls vn (func v)). call_args c = []
      then Some IndexError else None)"
proof (induction vs arbitrary: d)
  case Nil
  show ?case by simp
next
  case (Cons v vs)
  show ?case
  proof (cases "CalcDirectionVisitor_visit vn (func v) d")
    case (Inl e)
    then show ?thesis using CalcDirectionVisitor_visit_raises[of vn "func v" d e] by auto
  next
    case (Inr d')
    have "\<not> (\<exists>c \<in> set (known_calls vn (func v)). call_args c = [])"
      using Inr CalcDirectionVisitor_visit_raises[of vn "func v" d IndexError] by auto
    moreover obtain vs' r where loop: "get_calc_direction_loop vn d' vs = (vs', r)"
      by (cases "get_calc_direction_loop vn d' vs")
    moreover from loop Cons.IH[of d'] have
      "r = (if \<exists>v \<in> set vs. \<exists>c \<in> set (known_calls vn (func v)). call_args c = []
            then Some IndexError else None)" by simp
    ultimately show ?thesis using Inr by simp
  qed
qed









lemma CalcDirectionVisitor_visit_Calls_known:
  "CalcDirectionVisitor_visit_Calls vn cs d =
     CalcDirectionVisitor_visit_Calls vn (filter (is_known_call vn) cs) d"
  by (induction cs arbitrary: d)
     (auto simp: CalcDirectionVisitor_visit_Call_cases split: sum.splits list.splits)

lemma CalcDirectionVisitor_visit_known_calls:
  "CalcDirectionVisitor_visit vn tree d = CalcDirectionVisitor_visit_Calls vn (known_calls vn tree) d"
  unfolding known_calls_def CalcDirectionVisitor_visit_visited_calls(1)
  by (rule CalcDirectionVisitor_visit_Calls_known)


text \<open>
  C1, as the specification has it, fails on its own scenario: for
  \<^verbatim>\<open>def f(t): return f(t-1) * r\<close> the classifier, given the group \<open>[f]\<close>, assigns
  \<^verbatim>\<open>"forward"\<close>, not \<^verbatim>\<open>"backward"\<close>.
\<close>

theorem classifier_scenario_is_forward:
  "map calc_direction (fst (get_calc_direction [var_f])) = [''forward'']
   \<and> map calc_direction (fst (get_calc_direction [var_f])) \<noteq> [''backward'']
   \<and> snd (get_calc_direction [var_f]) = None"
  by (simp add: get_calc_direction_def example_defs)

text \<open>
  C1, amended. When the classifier visits a call to a group member whose argument is
  the time cursor plus a literal integer it sets the running direction to
  \<^verbatim>\<open>"backward"\<close>, and when the argument is the time cursor minus a literal integer it
  sets it to \<^verbatim>\<open>"forward"\<close>. In particular a singleton group whose formula's one
  visited call to itself has the argument \<^verbatim>\<open>t-k\<close> is assigned \<^verbatim>\<open>"forward"\<close>.
\<close>

theorem classifier_shifted_call_direction:
  "(f \<in> set variable_names \<longrightarrow>
      CalcDirectionVisitor_visit_Call variable_names
        (Call (Name f) [BinOp (Name ''t'') Add (Constant (CInt k))] keywords) calc_dir
        = Inr ''backward''
    \<and> CalcDirectionVisitor_visit_Call variable_names
        (Call (Name f) [BinOp (Name ''t'') Sub (Constant (CInt k))] keywords) calc_dir
        = Inr ''forward'')
   \<and> (known_calls [name v] (func v)
         = [Call (Name (name v)) [BinOp (Name ''t'') Sub (Constant (CInt k))] keywords] \<longrightarrow>
       get_calc_direction [v] = ([v\<lparr>calc_direction := ''forward''\<rparr>], None))"
proof (intro conjI impI)
  assume "known_calls [name v] (func v)
         = [Call (Name (name v)) [BinOp (Name ''t'') Sub (Constant (CInt k))] keywords]"
  then have "CalcDirectionVisitor_visit [name v] (func v) ''irrelevant'' = Inr ''forward''"
    by (simp add: CalcDirectionVisitor_visit_known_calls)
  then show "get_calc_direction [v] = ([v\<lparr>calc_direction := ''forward''\<rparr>], None)"
    by (simp add: get_calc_direction_def)
qed simp_all

theorem classifier_shifted_call_direction_witness:
  "''net_single_premium'' \<in> set [''net_single_premium'']
   \<and> CalcDirectionVisitor_visit_Call [''net_single_premium'']
        (Call (Name ''net_single_premium'') [BinOp (Name ''t'') Add (Constant (CInt 1))] [])
        ''irrelevant'' = Inr ''backward''
   \<and> known_calls [name survival_rate] (func survival_rate)
         = [Call (Name (name survival_rate)) [BinOp (Name ''t'') Sub (Constant (CInt 1))] []]
   \<and> get_calc_direction [survival_rate]
         = ([survival_rate\<lparr>calc_direction := ''forward''\<rparr>], None)"
proof -
  have k: "known_calls [name survival_rate] (func survival_rate)
         = [Call (Name (name survival_rate)) [BinOp (Name ''t'') Sub (Constant (CInt 1))] []]"
    by (simp add: known_calls_def example_defs)
  from classifier_shifted_call_direction
         [of "''net_single_premium''" "[''net_single_premium'']" 1 "[]" "''irrelevant''" survival_rate]
       k
  show ?thesis by simp
qed

text \<open>
  C5, as the specification has it, fails on \<^verbatim>\<open>def h(t): return h()\<close>: the validator
  (and with it the extractor) raises a \<^verbatim>\<open>CashflowModelError\<close> on the call without
  argument, and the classifier an \<^verbatim>\<open>IndexError\<close>.
\<close>

theorem classifier_raises_index_error:
  "snd (get_calc_direction [var_h]) = Some IndexError
   \<and> raise_error_if_incorrect_argument (Call (Name ''h'') [] [])
       = Inl (CashflowModelError (arity_msg ''h''))
   \<and> get_calls var_h [var_h] = Inl (CashflowModelError (arity_msg ''h''))"
  by (simp add: get_calc_direction_def get_calls_def get_call_names_def example_defs)

text \<open>
  C5, amended. The classifier does not go through the validator: it reads the first
  argument of each call to a group member that it visits. It raises no
  \<^verbatim>\<open>CashflowModelError\<close>; its only failure is the \<^verbatim>\<open>IndexError\<close> of a visited call to
  a group member with an empty argument list, and it fails so exactly when the formulas
  of the group hold such a call. A call with any other argument that the validator
  refuses does not make it fail.
\<close>

theorem classifier_failure:
  "snd (get_calc_direction variables) =
     (if \<exists>v \<in> set variables. \<exists>c \<in> set (known_calls (map name variables) (func v)).
           call_args c = []
      then Some IndexError else None)"
  unfolding get_calc_direction_def Let_def by (rule get_calc_direction_loop_error)

theorem classifier_failure_witness:
  "rejected (Call (Name ''other'') [BinOp (Name ''t'') Mult (Constant (CInt 2))] [])
   \<and> Call (Name ''other'') [BinOp (Name ''t'') Mult (Constant (CInt 2))] []
       \<in> set (known_calls (map name [var_bad2, var_other]) (func var_bad2))
   \<and> snd (get_calc_direction [var_bad2, var_other]) = None"
proof -
  have k1: "known_calls [name var_bad2, name var_other] (func var_bad2)
          = [Call (Name ''other'') [BinOp (Name ''t'') Mult (Constant (CInt 2))] []]"
    by (simp add: known_calls_def example_defs)
  have k2: "known_calls [name var_bad2, name var_other] (func var_other) = []"
    by (simp add: known_calls_def example_defs)
  have "rejected (Call (Name ''other'') [BinOp (Name ''t'') Mult (Constant (CInt 2))] [])"
    by (simp add: rejected_def)
  moreover have "snd (get_calc_direction [var_bad2, var_other]) = None"
    using classifier_failure [of "[var_bad2, var_other]"] by (simp add: k1 k2)
  ultimately show ?thesis by (simp add: k1)
qed



section \<open>The Predecessor Closure\<close>

lemma finite_all_nodes: "finite (all_nodes DG)"
  by (auto simp: all_nodes_def nodes_def)

lemma get_predecessors_loop_Nil: "get_predecessors_loop DG [] visited = Some (Inr visited)"
  by (simp add: get_predecessors_loop.simps)

lemma get_predecessors_loop_raise:
  "predecessors DG node = Inl e \<Longrightarrow> get_predecessors_loop DG (node # queue) visited = Some (Inl e)"
  by (subst get_predecessors_loop.simps) simp

lemma get_predecessors_loop_step:
  "predecessors DG node = Inr children \<Longrightarrow>
   foldl visit_child (queue, visited) children = (queue', visited') \<Longrightarrow>
   get_predecessors_loop DG (node # queue) visited = get_predecessors_loop DG queue' visited'"
  by (subst get_predecessors_loop.simps) simp

lemma foldl_visit_child:
  "\<exists>new. foldl visit_child (queue, visited) children = (queue @ new, visited @ new)
         \<and> distinct new \<and> set new = set children - set visited"
proof (induction children arbitrary: queue visited)
  case Nil
  show ?case by simp
next
  case (Cons c cs)
  show ?case
  proof (cases "c \<in> set visited")
    case True
    from Cons.IH[of queue visited] obtain new where
      "foldl visit_child (queue, visited) cs = (queue @ new, visited @ new)"
      "distinct new" "set new = set cs - set visited" by blast
    with True show ?thesis by auto
  next
    case False
    from Cons.IH[of "queue @ [c]" "visited @ [c]"] obtain new where new:
      "foldl visit_child (queue @ [c], visited @ [c]) cs = ((queue @ [c]) @ new, (visited @ [c]) @ new)"
      "distinct new" "set new = set cs - set (visited @ [c])" by blast
    have "foldl visit_child (queue, visited) (c # cs) = (queue @ (c # new), visited @ (c # new))"
      using False new(1) by simp
    moreover have "distinct (c # new)" using new(2,3) by auto
    moreover have "set (c # new) = set (c # cs) - set visited" using new(3) False by auto
    ultimately show ?thesis by blast
  qed
qed

lemma predecessors_Inr:
  "predecessors DG node = Inr children \<Longrightarrow> (node, children) \<in> set DG \<and> map_of DG node = Some children"
  by (auto simp: predecessors_def split: option.splits dest: map_of_SomeD)

lemma predecessors_node:
  "node \<in> nodes DG \<Longrightarrow> \<exists>children. predecessors DG node = Inr children"
  by (cases "map_of DG node") (auto simp: predecessors_def nodes_def map_of_eq_None_iff)

lemma loop_measure:
  assumes "predecessors DG node = Inr children"
    and "foldl visit_child (queue, visited) children = (queue', visited')"
  shows "2 * card (all_nodes DG - set visited') + length queue'
       < 2 * card (all_nodes DG - set visited) + length (node # queue)"
proof -
  from foldl_visit_child[of queue visited children] assms(2) obtain new where new:
    "queue' = queue @ new" "visited' = visited @ new" "distinct new"
    "set new = set children - set visited" by auto
  from predecessors_Inr[OF assms(1)] have "set children \<subseteq> all_nodes DG"
    by (auto simp: all_nodes_def)
  with new(4) have sub: "set new \<subseteq> all_nodes DG - set visited" by auto
  have "all_nodes DG - set visited' = (all_nodes DG - set visited) - set new"
    unfolding new(2) by auto
  then have "card (all_nodes DG - set visited') = card (all_nodes DG - set visited) - card (set new)"
    using sub by (simp add: card_Diff_subset)
  moreover have "card (set new) \<le> card (all_nodes DG - set visited)"
    using sub finite_all_nodes[of DG] by (simp add: card_mono)
  moreover have "card (set new) = length new" using new(3) by (simp add: distinct_card)
  ultimately show ?thesis unfolding new(1) by simp
qed

lemma get_predecessors_loop_terminates:
  "\<exists>r. get_predecessors_loop DG queue visited = Some r"
proof (induction "2 * card (all_nodes DG - set visited) + length queue"
        arbitrary: queue visited rule: less_induct)
  case less
  show ?case
  proof (cases queue)
    case Nil
    then show ?thesis by (simp add: get_predecessors_loop_Nil)
  next
    case (Cons node rest)
    show ?thesis
    proof (cases "predecessors DG node")
      case (Inl e)
      then show ?thesis unfolding Cons by (simp add: get_predecessors_loop_raise)
    next
      case (Inr children)
      obtain queue' visited' where f: "foldl visit_child (rest, visited) children = (queue', visited')"
        by (cases "foldl visit_child (rest, visited) children")
      from loop_measure[OF Inr f] less(1)[of visited' queue'] Cons
      have "\<exists>r. get_predecessors_loop DG queue' visited' = Some r" by simp
      then show ?thesis unfolding Cons get_predecessors_loop_step[OF Inr f] .
    qed
  qed
qed

lemma get_predecessors_loop_distinct:
  "distinct visited \<Longrightarrow> get_predecessors_loop DG queue visited = Some (Inr r) \<Longrightarrow> distinct r"
proof (induction "2 * card (all_nodes DG - set visited) + length queue"
        arbitrary: queue visited rule: less_induct)
  case less
  show ?case
  proof (cases queue)
    case Nil
    with less.prems show ?thesis by (simp add: get_predecessors_loop_Nil)
  next
    case (Cons node rest)
    show ?thesis
    proof (cases "predecessors DG node")
      case (Inl e)
      with less.prems(2) show ?thesis unfolding Cons by (simp add: get_predecessors_loop_raise)
    next
      case (Inr children)
      obtain queue' visited' where f: "foldl visit_child (rest, visited) children = (queue', visited')"
        by (cases "foldl visit_child (rest, visited) children")
      from foldl_visit_child[of rest visited children] f obtain new where
        "visited' = visited @ new" "distinct new" "set new = set children - set visited" by auto
      with less.prems(1) have d: "distinct visited'" by auto
      from less.prems(2) have r: "get_predecessors_loop DG queue' visited' = Some (Inr r)"
        unfolding Cons get_predecessors_loop_step[OF Inr f] .
      from loop_measure[OF Inr f] Cons
      have "2 * card (all_nodes DG - set visited') + length queue'
            < 2 * card (all_nodes DG - set visited) + length queue" by simp
      from less.hyps[OF this d r] show ?thesis .
    qed
  qed
qed


lemma pred_edges_iff: "(p, n) \<in> pred_edges DG \<longleftrightarrow> (\<exists>ps. predecessors DG n = Inr ps \<and> p \<in> set ps)"
  by (auto simp: pred_edges_def predecessors_def split: option.splits)

lemma bfs_inv_step:
  assumes inv: "bfs_inv DG start (node # queue) visited" and wf: "wf_digraph DG"
    and preds: "predecessors DG node = Inr children"
    and f: "foldl visit_child (queue, visited) children = (queue', visited')"
  shows "bfs_inv DG start queue' visited'"
proof -
  from foldl_visit_child[of queue visited children] f obtain new where
    q': "queue' = queue @ new" and v': "visited' = visited @ new" and dn: "distinct new"
    and sn: "set new = set children - set visited" by auto
  have sq: "set queue' = set queue \<union> set new" by (simp add: q')
  have sv: "set visited' = set visited \<union> set new" by (simp add: v')
  from inv have dv: "distinct visited" by (simp add: bfs_inv_def)
  from inv have nv: "node \<in> set visited" by (simp add: bfs_inv_def)
  from inv have qv: "set queue \<subseteq> set visited" by (simp add: bfs_inv_def)
  from inv have st: "start \<in> set visited" by (simp add: bfs_inv_def)
  from inv have vn: "set visited \<subseteq> nodes DG" by (simp add: bfs_inv_def)
  from inv have reach: "\<forall>x \<in> set visited. (x, start) \<in> (pred_edges DG)\<^sup>*"
    by (simp add: bfs_inv_def)
  from inv have closed:
    "\<forall>x \<in> set visited - set (node # queue). \<forall>p. (p, x) \<in> pred_edges DG \<longrightarrow> p \<in> set visited"
    unfolding bfs_inv_def by blast
  have edge: "(c, node) \<in> pred_edges DG" if "c \<in> set children" for c
    using that preds by (simp add: pred_edges_iff)
  have "(node, children) \<in> set DG" using predecessors_Inr[OF preds] by simp
  with wf have cn: "set children \<subseteq> nodes DG"
    unfolding wf_digraph_def by blast
  have 1: "distinct visited'" unfolding v' using dv dn sn by auto
  have 2: "set queue' \<subseteq> set visited'" unfolding sq sv using qv by blast
  have 3: "start \<in> set visited'" unfolding sv using st by simp
  have 4: "set visited' \<subseteq> nodes DG" unfolding sv sn using vn cn by blast
  have 5: "\<forall>x \<in> set visited'. (x, start) \<in> (pred_edges DG)\<^sup>*"
  proof
    fix x assume "x \<in> set visited'"
    then consider "x \<in> set visited" | "x \<in> set new" unfolding sv by blast
    then show "(x, start) \<in> (pred_edges DG)\<^sup>*"
    proof cases
      case 1
      with reach show ?thesis by blast
    next
      case 2
      then have "x \<in> set children" unfolding sn by simp
      then have "(x, node) \<in> pred_edges DG" by (rule edge)
      moreover from nv reach have "(node, start) \<in> (pred_edges DG)\<^sup>*" by blast
      ultimately show ?thesis by (rule converse_rtrancl_into_rtrancl)
    qed
  qed
  have 6: "\<forall>x \<in> set visited' - set queue'. \<forall>p. (p, x) \<in> pred_edges DG \<longrightarrow> p \<in> set visited'"
  proof (intro ballI allI impI)
    fix x p assume x: "x \<in> set visited' - set queue'" and px: "(p, x) \<in> pred_edges DG"
    from x have xv: "x \<in> set visited" and xq: "x \<notin> set queue" unfolding sq sv by blast+
    show "p \<in> set visited'"
    proof (cases "x = node")
      case True
      with px preds have "p \<in> set children" by (simp add: pred_edges_iff)
      then show ?thesis unfolding sv sn by blast
    next
      case False
      with xv xq have "x \<in> set visited - set (node # queue)" by simp
      with closed px have "p \<in> set visited" by blast
      then show ?thesis unfolding sv by simp
    qed
  qed
  show ?thesis unfolding bfs_inv_def
    by (intro conjI) (fact 1, fact 2, fact 3, fact 4, fact 5, fact 6)
qed

lemma bfs_inv_final:
  assumes "bfs_inv DG start [] visited"
  shows "set visited = {m. (m, start) \<in> (pred_edges DG)\<^sup>*}"
proof -
  from assms have st: "start \<in> set visited" by (simp add: bfs_inv_def)
  from assms have reach: "\<forall>x \<in> set visited. (x, start) \<in> (pred_edges DG)\<^sup>*"
    by (simp add: bfs_inv_def)
  from assms have closed: "\<forall>x \<in> set visited. \<forall>p. (p, x) \<in> pred_edges DG \<longrightarrow> p \<in> set visited"
    by (simp add: bfs_inv_def)
  have "m \<in> set visited" if "(m, start) \<in> (pred_edges DG)\<^sup>*" for m
    using that
  proof (induction rule: converse_rtrancl_induct)
    case base
    show ?case by (rule st)
  next
    case (step y z)
    with closed show ?case by blast
  qed
  with reach show ?thesis by blast
qed

lemma get_predecessors_loop_correct:
  assumes "bfs_inv DG start queue visited" and "wf_digraph DG"
  shows "\<exists>r. get_predecessors_loop DG queue visited = Some (Inr r)
           \<and> distinct r \<and> set r \<subseteq> nodes DG
           \<and> set r = {m. (m, start) \<in> (pred_edges DG)\<^sup>*}
           \<and> take (length visited) r = visited"
  using assms
proof (induction "2 * card (all_nodes DG - set visited) + length queue"
        arbitrary: queue visited rule: less_induct)
  case less
  show ?case
  proof (cases queue)
    case Nil
    from less.prems(1) have "distinct visited" "set visited \<subseteq> nodes DG"
      by (simp_all add: bfs_inv_def)
    moreover from less.prems(1) Nil have "set visited = {m. (m, start) \<in> (pred_edges DG)\<^sup>*}"
      using bfs_inv_final[of DG start visited] by simp
    ultimately show ?thesis unfolding Nil get_predecessors_loop_Nil by simp
  next
    case (Cons node rest)
    from less.prems(1) have "set queue \<subseteq> set visited" "set visited \<subseteq> nodes DG"
      by (simp_all add: bfs_inv_def)
    with Cons have "node \<in> nodes DG" by auto
    from predecessors_node[OF this] obtain children where
      preds: "predecessors DG node = Inr children" by blast
    obtain queue' visited' where f: "foldl visit_child (rest, visited) children = (queue', visited')"
      by (cases "foldl visit_child (rest, visited) children")
    from foldl_visit_child[of rest visited children] f obtain new where
      new: "visited' = visited @ new" by auto
    from bfs_inv_step[OF less.prems(1)[unfolded Cons] less.prems(2) preds f]
    have inv': "bfs_inv DG start queue' visited'" .
    from loop_measure[OF preds f] Cons
    have "2 * card (all_nodes DG - set visited') + length queue'
          < 2 * card (all_nodes DG - set visited) + length queue" by simp
    from less.hyps[OF this inv' less.prems(2)] obtain r where
      r1: "get_predecessors_loop DG queue' visited' = Some (Inr r)" and r2: "distinct r"
      and r3: "set r \<subseteq> nodes DG" and r4: "set r = {m. (m, start) \<in> (pred_edges DG)\<^sup>*}"
      and r5: "take (length visited') r = visited'" by blast
    have "take (length visited) r = take (length visited) (take (length visited') r)"
      using new by (simp add: min_def)
    also have "\<dots> = visited" unfolding r5 using new by simp
    finally have r6: "take (length visited) r = visited" .
    have "get_predecessors_loop DG queue visited = Some (Inr r)"
      unfolding Cons get_predecessors_loop_step[OF preds f] by (rule r1)
    with r2 r3 r4 r6 show ?thesis by (intro exI[of _ r] conjI)
  qed
qed

lemma bfs_inv_init: "node \<in> nodes DG \<Longrightarrow> bfs_inv DG node [node] [node]"
  by (simp add: bfs_inv_def)


lemma loop_state_result:
  "loop_state DG start queue visited \<Longrightarrow>
   get_predecessors_loop DG queue visited = get_predecessors start DG"
proof (induction rule: loop_state.induct)
  case init
  show ?case by (simp add: get_predecessors_def)
next
  case (iter node queue visited children queue' visited')
  from get_predecessors_loop_step[OF iter.hyps(2,3)] iter.IH show ?case by simp
qed

lemma loop_state_log:
  "loop_state DG start queue visited \<Longrightarrow>
   distinct visited \<and> (\<exists>dequeued. visited = dequeued @ queue)"
proof (induction rule: loop_state.induct)
  case init
  show ?case by simp
next
  case (iter node queue visited children queue' visited')
  from foldl_visit_child[of queue visited children] iter.hyps(3) obtain new where
    q': "queue' = queue @ new" and v': "visited' = visited @ new" and dn: "distinct new"
    and sn: "set new = set children - set visited" by auto
  from iter.IH obtain dequeued where dv: "distinct visited"
    and v: "visited = dequeued @ node # queue" by blast
  have "distinct visited'" unfolding v' using dv dn sn by auto
  moreover have "visited' = (dequeued @ [node]) @ queue'" unfolding v' q' v by simp
  ultimately show ?case by blast
qed

text \<open>
  C8. On a graph and a start node of it, the closure returns a list that holds the
  start node, holds no node twice, holds only nodes of the graph, and whose set is the
  set of the nodes from which the start node is reached along the edges. That set is
  fixed by the start node and the edges alone: on any graph with the same edges, in
  whatever order its table or its predecessor lists are, the closure returns the same
  set. (On a start node that is not in the graph, \<^verbatim>\<open>DG.predecessors\<close> raises.)
\<close>

theorem predecessor_closure_correct:
  assumes "wf_digraph DG" and "node \<in> nodes DG"
  shows "\<exists>visited. get_predecessors node DG = Some (Inr visited)
           \<and> node \<in> set visited \<and> distinct visited \<and> set visited \<subseteq> nodes DG
           \<and> set visited = {m. (m, node) \<in> (pred_edges DG)\<^sup>*}
           \<and> (\<forall>DG'. wf_digraph DG' \<and> node \<in> nodes DG' \<and> pred_edges DG' = pred_edges DG \<longrightarrow>
                 (\<exists>visited'. get_predecessors node DG' = Some (Inr visited')
                    \<and> set visited' = set visited))"
proof -
  from get_predecessors_loop_correct[OF bfs_inv_init[OF assms(2)] assms(1)]
  obtain r where r: "get_predecessors_loop DG [node] [node] = Some (Inr r)" "distinct r"
    "set r \<subseteq> nodes DG" "set r = {m. (m, node) \<in> (pred_edges DG)\<^sup>*}"
    "take (length [node]) r = [node]" by blast
  from r(5) have "node \<in> set r" by (cases r) auto
  moreover have "\<exists>visited'. get_predecessors node DG' = Some (Inr visited') \<and> set visited' = set r"
    if "wf_digraph DG' \<and> node \<in> nodes DG' \<and> pred_edges DG' = pred_edges DG" for DG'
  proof -
    from that have wf': "wf_digraph DG'" and n': "node \<in> nodes DG'"
      and e: "pred_edges DG' = pred_edges DG" by simp_all
    from get_predecessors_loop_correct[OF bfs_inv_init[OF n'] wf']
    obtain r' where "get_predecessors_loop DG' [node] [node] = Some (Inr r')"
      "set r' = {m. (m, node) \<in> (pred_edges DG')\<^sup>*}" by blast
    with r(4) e show ?thesis by (auto simp: get_predecessors_def)
  qed
  ultimately show ?thesis using r(1-4) unfolding get_predecessors_def by blast
qed

theorem predecessor_closure_correct_witness:
  "wf_digraph chain_graph \<and> ''x'' \<in> nodes chain_graph
   \<and> get_predecessors ''x'' chain_graph = Some (Inr [''x'', ''y'', ''z''])
   \<and> set [''x'', ''y'', ''z''] = {m. (m, ''x'') \<in> (pred_edges chain_graph)\<^sup>*}"
proof -
  have w: "wf_digraph chain_graph" by (simp add: wf_digraph_def nodes_def chain_graph_def)
  have n: "''x'' \<in> nodes chain_graph" by (simp add: nodes_def chain_graph_def)
  have e: "get_predecessors ''x'' chain_graph = Some (Inr [''x'', ''y'', ''z''])"
    by (simp add: get_predecessors_def get_predecessors_loop.simps predecessors_def
        chain_graph_def)
  from predecessor_closure_correct [OF w n] e w n show ?thesis by auto
qed

text \<open>
  C9. On every graph, with or without cycles, and every start node the loop of the
  closure ends: it returns or raises. At every state of the loop the visited list holds
  no node twice and is the nodes already taken from the queue followed by the queue:
  a node enters the queue when it enters the visited list, so once at most. The list
  returned holds no node twice. On a graph and a start node of it, the loop returns.
\<close>

theorem predecessor_closure_terminates:
  "(\<exists>r. get_predecessors node DG = Some r)
   \<and> (\<forall>queue visited. loop_state DG node queue visited \<longrightarrow>
         get_predecessors_loop DG queue visited = get_predecessors node DG
         \<and> distinct visited \<and> (\<exists>dequeued. visited = dequeued @ queue))
   \<and> (\<forall>visited. get_predecessors node DG = Some (Inr visited) \<longrightarrow> distinct visited)
   \<and> (wf_digraph DG \<and> node \<in> nodes DG \<longrightarrow>
        (\<exists>visited. get_predecessors node DG = Some (Inr visited)))"
proof (intro conjI allI impI)
  show "\<exists>r. get_predecessors node DG = Some r"
    unfolding get_predecessors_def by (rule get_predecessors_loop_terminates)
next
  fix queue visited assume "loop_state DG node queue visited"
  then show "get_predecessors_loop DG queue visited = get_predecessors node DG"
    by (rule loop_state_result)
next
  fix queue visited assume st: "loop_state DG node queue visited"
  from loop_state_log[OF st] show "distinct visited" by (rule conjunct1)
next
  fix queue visited assume st: "loop_state DG node queue visited"
  from loop_state_log[OF st] show "\<exists>dequeued. visited = dequeued @ queue" by (rule conjunct2)
next
  fix visited assume "get_predecessors node DG = Some (Inr visited)"
  then show "distinct visited"
    unfolding get_predecessors_def
    using get_predecessors_loop_distinct[of "[node]" DG "[node]" visited] by simp
next
  assume "wf_digraph DG \<and> node \<in> nodes DG"
  then have "wf_digraph DG" "node \<in> nodes DG" by simp_all
  from get_predecessors_loop_correct[OF bfs_inv_init[OF this(2)] this(1)]
  show "\<exists>visited. get_predecessors node DG = Some (Inr visited)"
    unfolding get_predecessors_def by blast
qed

theorem predecessor_closure_terminates_witness:
  "wf_digraph cyclic_graph \<and> ''a'' \<in> nodes cyclic_graph
   \<and> (''a'', ''b'') \<in> pred_edges cyclic_graph \<and> (''b'', ''a'') \<in> pred_edges cyclic_graph
   \<and> loop_state cyclic_graph ''a'' [''b'', ''c''] [''a'', ''b'', ''c'']
   \<and> get_predecessors_loop cyclic_graph [''b'', ''c''] [''a'', ''b'', ''c'']
       = get_predecessors ''a'' cyclic_graph
   \<and> get_predecessors ''a'' cyclic_graph = Some (Inr [''a'', ''b'', ''c''])
   \<and> distinct [''a'', ''b'', ''c'']"
proof -
  have w: "wf_digraph cyclic_graph" by (simp add: wf_digraph_def nodes_def cyclic_graph_def)
  have n: "''a'' \<in> nodes cyclic_graph" by (simp add: nodes_def cyclic_graph_def)
  have c: "(''a'', ''b'') \<in> pred_edges cyclic_graph" "(''b'', ''a'') \<in> pred_edges cyclic_graph"
    by (simp_all add: pred_edges_def cyclic_graph_def)
  have p: "predecessors cyclic_graph ''a'' = Inr [''b'', ''c'']"
    by (simp add: predecessors_def cyclic_graph_def)
  have f: "foldl visit_child ([], [''a'']) [''b'', ''c''] = ([''b'', ''c''], [''a'', ''b'', ''c''])"
    by simp
  have s: "loop_state cyclic_graph ''a'' [''b'', ''c''] [''a'', ''b'', ''c'']"
    by (rule loop_state.iter[OF loop_state.init p f])
  have e: "get_predecessors ''a'' cyclic_graph = Some (Inr [''a'', ''b'', ''c''])"
    by (simp add: get_predecessors_def get_predecessors_loop.simps predecessors_def
        cyclic_graph_def)
  from predecessor_closure_terminates [of "''a''" cyclic_graph] e w n c s
  show ?thesis by simp
qed

end
